theory Spec2Isabelle
  imports
    Main
    "HOL-Library.Word"
    "HOL-Library.Signed_Division"
    "HOL-Library.Log_Nat"
    "HOL-Library.Monad_Syntax"
    "HOL-Library.Sublist"
    "HOL-Library.Multiset"
begin

unbundle bit_operations_syntax

chapter \<open>A chained hash table with MurmurHash3 (hashtable.c)\<close>

section \<open>Machine types\<close>

text \<open>
  The C types of the sources: \<open>uint8_t\<close>, \<open>uint32_t\<close> and \<open>size_t\<close> (64 bits, an
  LP64 platform) are words, so that arithmetic wraps around as it does in C. The C type
  \<open>int\<close> is modelled by \<open>int\<close>; the conversion of a \<open>size_t\<close> to \<open>int\<close>
  keeps the low 32 bits and reads them as two's complement.
\<close>

type_synonym u8 = "8 word"
type_synonym u32 = "32 word"
type_synonym size_t = "64 word"

definition int_of_size_t :: "nat \<Rightarrow> int" where
  "int_of_size_t n = sint (word_of_nat n :: 32 word)"

section \<open>The hash function\<close>

subsection \<open>Reading the key buffer\<close>

text \<open>
  The buffer behind \<open>key_ptr\<close> is the list of its bytes. A read outside the buffer is
  undefined behaviour in C: the model returns \<open>None\<close> for it. The loop of
  \<open>murmurhash\<close> reads the buffer through a \<open>uint32_t\<close> pointer; the model
  takes the byte order of that load to be little-endian.
\<close>

definition read_u8 :: "u8 list \<Rightarrow> int \<Rightarrow> u8 option" where
  "read_u8 data off =
     (if 0 \<le> off \<and> off < int (length data) then Some (data ! nat off) else None)"

definition read_u32 :: "u8 list \<Rightarrow> int \<Rightarrow> u32 option" where
  "read_u32 data off =
     (if 0 \<le> off \<and> off + 4 \<le> int (length data)
      then Some (ucast (data ! nat off)
                 OR push_bit 8 (ucast (data ! (nat off + 1)))
                 OR push_bit 16 (ucast (data ! (nat off + 2)))
                 OR push_bit 24 (ucast (data ! (nat off + 3))))
      else None)"

subsection \<open>murmurhash, from hashtable.c\<close>

text \<open>
  The \<open>for\<close> loop of \<open>murmurhash\<close>: \<open>index\<close> runs from \<open>-chunk_len\<close> up to 0 and
  \<open>chunks_ptr[index]\<close> is the 32-bit word at byte offset
  \<open>(chunk_len + index) * 4\<close> of the buffer.
\<close>

function murmur_chunks :: "u8 list \<Rightarrow> int \<Rightarrow> int \<Rightarrow> u32 \<Rightarrow> u32 option" where
  "murmur_chunks data chunk_len index hash =
     (if index \<noteq> 0 then
        (case read_u32 data ((chunk_len + index) * 4) of
           None \<Rightarrow> None
         | Some key_chunk \<Rightarrow>
             (let key_chunk = key_chunk * 0xcc9e2d51;
                  key_chunk = push_bit 15 key_chunk OR drop_bit (32 - 15) key_chunk;
                  key_chunk = key_chunk * 0x1b873593;
                  hash = hash XOR key_chunk;
                  hash = push_bit 13 hash OR drop_bit (32 - 13) hash;
                  hash = hash * 5 + 0xe6546b64
              in murmur_chunks data chunk_len (index + 1) hash))
      else Some hash)"
  by pat_completeness auto
termination
  by (relation "measure (\<lambda>(data, chunk_len, index, hash).
                   nat (int (length data) - (chunk_len + index) * 4))")
     (auto simp: read_u32_def split: if_splits)

text \<open>
  The \<open>switch (length & 3)\<close> with its fall-through cases: case 3 adds byte 2, then
  case 2 adds byte 1, then case 1 adds byte 0 and mixes the word into the hash. The
  parameter \<open>length\<close> of the source is \<open>len\<close> here.
\<close>

definition murmur_tail :: "u8 list \<Rightarrow> int \<Rightarrow> int \<Rightarrow> u32 \<Rightarrow> u32 option" where
  "murmur_tail data tail_off len hash =
     (let sel = len AND 3; key_chunk = (0 :: u32) in
      if sel = 3 \<or> sel = 2 \<or> sel = 1 then
        do {
          key_chunk \<leftarrow>
            (if sel = 3 then
               do { b \<leftarrow> read_u8 data (tail_off + 2);
                    Some (key_chunk XOR push_bit 16 (ucast b)) }
             else Some key_chunk);
          key_chunk \<leftarrow>
            (if sel = 3 \<or> sel = 2 then
               do { b \<leftarrow> read_u8 data (tail_off + 1);
                    Some (key_chunk XOR push_bit 8 (ucast b)) }
             else Some key_chunk);
          b \<leftarrow> read_u8 data tail_off;
          let key_chunk = key_chunk XOR ucast b;
              key_chunk = key_chunk * 0xcc9e2d51;
              key_chunk = push_bit 15 key_chunk OR drop_bit (32 - 15) key_chunk;
              key_chunk = key_chunk * 0x1b873593
          in Some (hash XOR key_chunk)
        }
      else Some hash)"

definition murmurhash :: "u8 list \<Rightarrow> int \<Rightarrow> u32 \<Rightarrow> u32 option" where
  "murmurhash data len seed =
     (let chunk_len = len sdiv 4 in
      do {
        hash \<leftarrow> murmur_chunks data chunk_len (- chunk_len) seed;
        hash \<leftarrow> murmur_tail data (chunk_len * 4) len hash;
        let hash = hash XOR word_of_int len;
            hash = hash XOR drop_bit 16 hash;
            hash = hash * 0x85ebca6b;
            hash = hash XOR drop_bit 13 hash;
            hash = hash * 0xc2b2ae35;
            hash = hash XOR drop_bit 16 hash
        in Some hash
      })"

subsection \<open>C strings\<close>

text \<open>
  A C string is represented by the list of its characters before the terminating NUL, a
  null \<open>char *\<close> by \<open>None\<close>. \<open>strlen\<close> is then the length of the list, and
  \<open>strlen\<close> of a null pointer is undefined.
\<close>

definition strlen :: "string \<Rightarrow> nat" where
  "strlen s = length s"

definition key_bytes :: "string \<Rightarrow> u8 list" where
  "key_bytes s = map of_char s"

definition hash_str :: "string option \<Rightarrow> u32 option" where
  "hash_str p_key =
     (case p_key of
        None \<Rightarrow> None
      | Some key \<Rightarrow> murmurhash (key_bytes key) (int_of_size_t (strlen key)) 0)"

subsection \<open>The hash function, from the words of the specification\<close>

definition spec_mix :: "u32 \<Rightarrow> u32" where
  "spec_mix k = word_rotl 15 (k * 0xcc9e2d51) * 0x1b873593"

definition spec_round :: "u32 \<Rightarrow> u32 \<Rightarrow> u32" where
  "spec_round h k = word_rotl 13 (h XOR spec_mix k) * 5 + 0xe6546b64"

definition spec_chunk :: "u8 \<Rightarrow> u8 \<Rightarrow> u8 \<Rightarrow> u8 \<Rightarrow> u32" where
  "spec_chunk b0 b1 b2 b3 =
     ucast b0 OR push_bit 8 (ucast b1) OR push_bit 16 (ucast b2) OR push_bit 24 (ucast b3)"

fun spec_body :: "u8 list \<Rightarrow> u32 \<Rightarrow> u32" where
  "spec_body (b0 # b1 # b2 # b3 # rest) h = spec_body rest (spec_round h (spec_chunk b0 b1 b2 b3))"
| "spec_body [b0, b1, b2] h =
     h XOR spec_mix ((push_bit 16 (ucast b2) XOR push_bit 8 (ucast b1)) XOR ucast b0)"
| "spec_body [b0, b1] h = h XOR spec_mix (push_bit 8 (ucast b1) XOR ucast b0)"
| "spec_body [b0] h = h XOR spec_mix (ucast b0)"
| "spec_body [] h = h"

definition spec_avalanche :: "u32 \<Rightarrow> u32" where
  "spec_avalanche h =
     (let h = h XOR drop_bit 16 h;
          h = h * 0x85ebca6b;
          h = h XOR drop_bit 13 h;
          h = h * 0xc2b2ae35
      in h XOR drop_bit 16 h)"

definition spec_hash :: "u8 list \<Rightarrow> u32 \<Rightarrow> u32" where
  "spec_hash bytes seed = spec_avalanche (spec_body bytes seed XOR word_of_nat (length bytes))"

definition spec_hash_key :: "string \<Rightarrow> u32" where
  "spec_hash_key key = spec_hash (key_bytes key) 0"


section \<open>Error codes (errorcode.h)\<close>

datatype error_t =
    E_SUCCESS
  | E_GENERAL
  | E_NULL_PTR
  | E_HASHTABLE_NOT_FOUND
  | E_HASHTABLE_CREATE
  | E_HASHTABLE_INSERT
  | E_HASHTABLE_DELETE
  | E_HASHTABLE_DESTROY
  | E_NODE_NOT_FOUND

section \<open>The table (hashtable.h, hashtable.c)\<close>

subsection \<open>Data\<close>

text \<open>
  A \<open>node_t\<close> holds the key and value pointers it was created with; its \<open>p_next\<close>
  link is the tail of the list that models the chain, and the null chain is \<open>[]\<close>. A
  value pointer is \<open>'v option\<close>, \<open>None\<close> for the null pointer. The key of a linked
  node is never a null pointer (\<open>ht_insert\<close> dereferences the key before it links the
  node), so it is a string; the table stores the caller's pointer, and the model takes
  the characters behind it to stay as they were at the insert.

  An \<open>ht_t\<close> is the bucket array \<open>pp_items\<close> (one chain per bucket, the list as long
  as the allocated array) and the three counters. The field \<open>size\<close> of the source is
  \<open>size'\<close> here.
\<close>

record 'v node_t =
  p_key :: string
  p_value :: "'v option"

record 'v ht_t =
  pp_items :: "'v node_t list list"
  capacity :: size_t
  size' :: size_t
  prime_index :: u32

definition g_primes :: "u32 list" where
  "g_primes =
     [53, 97, 193, 389, 769, 1543,
      3079, 6151, 12289, 24593, 49157, 98317,
      196613, 393241, 786433, 1572869, 3145739, 6291469,
      12582917, 25165843, 50331653, 100663319, 201326611, 402653189,
      805306457, 1610612741]"

subsection \<open>Allocation\<close>

text \<open>
  \<open>malloc\<close> and \<open>calloc\<close> may fail. The outcomes of the allocation requests to
  come are a list of booleans, consumed one per request; once the list is used up
  every further request succeeds. So \<open>[]\<close> is the run in which no allocation fails.
\<close>

definition malloc :: "bool list \<Rightarrow> bool \<times> bool list" where
  "malloc al = (case al of [] \<Rightarrow> (True, []) | ok # al' \<Rightarrow> (ok, al'))"

subsection \<open>strcmp and strncmp of the C library\<close>

text \<open>
  On the lists that represent C strings, the end of a list plays the terminating NUL.
  Only the sign of the result is fixed by the C standard.
\<close>

fun strcmp :: "string \<Rightarrow> string \<Rightarrow> int" where
  "strcmp [] [] = 0"
| "strcmp [] (b # bs) = - 1"
| "strcmp (a # as) [] = 1"
| "strcmp (a # as) (b # bs) =
     (if a = b then strcmp as bs else if (of_char a :: nat) < of_char b then - 1 else 1)"

fun strncmp :: "string \<Rightarrow> string \<Rightarrow> nat \<Rightarrow> int" where
  "strncmp s1 s2 0 = 0"
| "strncmp [] [] (Suc n) = 0"
| "strncmp [] (b # bs) (Suc n) = - 1"
| "strncmp (a # as) [] (Suc n) = 1"
| "strncmp (a # as) (b # bs) (Suc n) =
     (if a = b then strncmp as bs n else if (of_char a :: nat) < of_char b then - 1 else 1)"

subsection \<open>The load factor in single precision\<close>

text \<open>
  \<open>(float)size / capacity\<close> is computed in IEEE 754 binary32 with rounding to nearest,
  ties to even: both operands are converted to \<open>float\<close> and the quotient is rounded.
  A \<open>float\<close> is modelled by the rational it denotes. \<open>to_float\<close> rounds a positive
  rational to 24 significant bits; the values that occur here (at most \<open>2 ^ 64\<close>, at
  least \<open>2 ^ - 64\<close>) are in the normal range of the format. The constant \<open>0.8\<close> of
  the comparison is a \<open>double\<close>, \<open>0x1.999999999999ap-1\<close>.
\<close>

definition round_half_even :: "rat \<Rightarrow> int" where
  "round_half_even x =
     (let f = \<lfloor>x\<rfloor>; r = x - of_int f in
      if r < 1 / 2 then f else if 1 / 2 < r then f + 1 else if even f then f else f + 1)"

definition float_exponent :: "rat \<Rightarrow> int" where
  "float_exponent x =
     (let (p, q) = quotient_of x; d = bitlen p - bitlen q in
      if 2 powi d \<le> x then d else d - 1)"

definition to_float :: "rat \<Rightarrow> rat" where
  "to_float x =
     (if x = 0 then 0
      else let ulp = 2 powi (float_exponent x - 23)
           in of_int (round_half_even (x / ulp)) * ulp)"

definition double_0_8 :: rat where
  "double_0_8 = 3602879701896397 / 4503599627370496"

definition load_factor :: "'v ht_t \<Rightarrow> rat" where
  "load_factor ht =
     to_float (to_float (of_nat (unat (size' ht))) / to_float (of_nat (unat (capacity ht))))"

subsection \<open>ht\_create and ht\_destroy\<close>

text \<open>
  \<open>ht_create\<close> returns \<open>None\<close> where the C code has undefined behaviour (the read
  of \<open>g_primes\<close> outside the array), otherwise the pointer it returns (\<open>None\<close>
  inside for \<open>NULL\<close>) and the allocation outcomes left.
\<close>

definition ht_create :: "bool list \<Rightarrow> int \<Rightarrow> ('v ht_t option \<times> bool list) option" where
  "ht_create al prime_index_arg =
     (case malloc al of
        (False, al) \<Rightarrow> Some (None, al)
      | (True, al) \<Rightarrow>
          (let idx = (word_of_int prime_index_arg :: u32) in
           if unat idx < length g_primes then
             (let cap = (ucast (g_primes ! unat idx) :: size_t) in
              case malloc al of
                (False, al) \<Rightarrow> Some (None, al)
              | (True, al) \<Rightarrow>
                  Some (Some \<lparr>pp_items = replicate (unat cap) [], capacity = cap,
                              size' = 0, prime_index = idx\<rparr>, al))
           else None))"

text \<open>
  The nodes that the two nested loops of \<open>ht_destroy\<close> and of the resize visit: the
  chains of the buckets \<open>0 .. capacity - 1\<close>, each from its head. Reading a bucket
  outside the array is undefined.
\<close>

definition ht_nodes :: "'v ht_t \<Rightarrow> 'v node_t list option" where
  "ht_nodes ht =
     (if unat (capacity ht) \<le> length (pp_items ht)
      then Some (concat (take (unat (capacity ht)) (pp_items ht)))
      else None)"

definition ht_destroy :: "'v ht_t option \<Rightarrow> error_t option" where
  "ht_destroy p_ht =
     (case p_ht of
        None \<Rightarrow> Some E_NULL_PTR
      | Some ht \<Rightarrow> (case ht_nodes ht of None \<Rightarrow> None | Some freed \<Rightarrow> Some E_SUCCESS))"

subsection \<open>The bucket of a key\<close>

text \<open>
  \<open>hash_str(p_key) % capacity\<close>, computed in \<open>size_t\<close> and stored in a
  \<open>uint32_t\<close>, then used as an index into \<open>pp_items\<close>. A zero capacity and an index
  outside the array are undefined behaviour.
\<close>

definition bucket_index :: "'v ht_t \<Rightarrow> string \<Rightarrow> nat option" where
  "bucket_index ht key =
     (case hash_str (Some key) of
        None \<Rightarrow> None
      | Some hash \<Rightarrow>
          if capacity ht = 0 then None
          else (let index = (ucast ((ucast hash :: size_t) mod capacity ht) :: u32) in
                if unat index < length (pp_items ht) then Some (unat index) else None))"

subsection \<open>ht\_insert\<close>

text \<open>
  Lines 134 to 143: the size is incremented when the bucket is empty, and the new node
  becomes the head of the chain.
\<close>

definition link_node :: "'v ht_t \<Rightarrow> nat \<Rightarrow> 'v node_t \<Rightarrow> 'v ht_t" where
  "link_node ht index p_new_node =
     (let ht = (if pp_items ht ! index = [] then ht\<lparr>size' := size' ht + 1\<rparr> else ht)
      in ht\<lparr>pp_items := (pp_items ht)[index := p_new_node # pp_items ht ! index]\<rparr>)"

text \<open>
  \<open>ht_insert al pp_ht p_key' p_value'\<close> is \<open>None\<close> for undefined behaviour (a null
  key reaches \<open>strlen\<close> in \<open>hash_str\<close>), otherwise
  the return value, the table that \<open>*pp_ht\<close> points to after the call (\<open>None\<close> if
  there is none) and the allocation outcomes left. \<open>pp_ht\<close> is \<open>None\<close> for a null
  \<open>pp_ht\<close> and \<open>Some None\<close> for a null \<open>*pp_ht\<close>.

  \<open>rehash\<close> is the pair of nested loops of the resize, over the nodes of the old
  table: it returns \<open>E_SUCCESS\<close> when the loops ran to their end, otherwise the code
  with which they were left, together with the value of \<open>p_new_ht\<close>.
\<close>

function ht_insert ::
    "bool list \<Rightarrow> 'v ht_t option option \<Rightarrow> string option \<Rightarrow> 'v option
       \<Rightarrow> (error_t \<times> 'v ht_t option \<times> bool list) option"
  and rehash ::
    "bool list \<Rightarrow> 'v ht_t option \<Rightarrow> 'v node_t list
       \<Rightarrow> (error_t \<times> 'v ht_t option \<times> bool list) option"
where
  "ht_insert al pp_ht p_key' p_value' =
     (case pp_ht of
        None \<Rightarrow> Some (E_NULL_PTR, None, al)
      | Some None \<Rightarrow> Some (E_NULL_PTR, None, al)
      | Some (Some ht) \<Rightarrow>
          (case malloc al of
             (False, al1) \<Rightarrow> Some (E_NULL_PTR, Some ht, al1)
           | (True, al1) \<Rightarrow>
               (case p_key' of
                  None \<Rightarrow> None
                | Some key \<Rightarrow>
                    (case bucket_index ht key of
                       None \<Rightarrow> None
                     | Some index \<Rightarrow>
                         (let ht1 = link_node ht index \<lparr>p_key = key, p_value = p_value'\<rparr> in
                          if double_0_8 < load_factor ht1 then
                            (case ht_create al1 (sint (prime_index ht1 + 1)) of
                               None \<Rightarrow> None
                             | Some (p_new_ht, al2) \<Rightarrow>
                                 (case ht_nodes ht1 of
                                    None \<Rightarrow> None
                                  | Some nodes \<Rightarrow>
                                      (case rehash al2 p_new_ht nodes of
                                         None \<Rightarrow> None
                                       | Some (retval, p_new_ht, al3) \<Rightarrow>
                                           if retval \<noteq> E_SUCCESS
                                           then Some (retval, Some ht1, al3)
                                           else (case ht_destroy (Some ht1) of
                                                   None \<Rightarrow> None
                                                 | Some retval \<Rightarrow>
                                                     if retval \<noteq> E_SUCCESS
                                                     then Some (retval, Some ht1, al3)
                                                     else Some (E_SUCCESS, p_new_ht, al3)))))
                          else Some (E_SUCCESS, Some ht1, al1))))))"
| "rehash al p_new_ht [] = Some (E_SUCCESS, p_new_ht, al)"
| "rehash al p_new_ht (p_node # rest) =
     (case ht_insert al (Some p_new_ht) (Some (p_key p_node)) (p_value p_node) of
        None \<Rightarrow> None
      | Some (retval, p_new_ht, al) \<Rightarrow>
          if retval \<noteq> E_SUCCESS then Some (retval, p_new_ht, al)
          else rehash al p_new_ht rest)"
  by pat_completeness auto


text \<open>
  Termination. A resize creates its table one rank up and the array of primes is finite,
  so the rank that is left decreases along the calls from \<open>ht_insert\<close> into
  \<open>rehash\<close>; along the loop of \<open>rehash\<close> the table may be replaced by the inner
  \<open>ht_insert\<close>, but never by one of a lower rank.
\<close>

definition rank_left :: "'v ht_t option \<Rightarrow> nat" where
  "rank_left p =
     (case p of
        None \<Rightarrow> 0
      | Some ht \<Rightarrow>
          if unat (prime_index ht) < length g_primes
          then length g_primes - unat (prime_index ht)
          else Suc (length g_primes))"

definition deref :: "'a option option \<Rightarrow> 'a option" where
  "deref pp = (case pp of None \<Rightarrow> None | Some p \<Rightarrow> p)"

lemma deref_simps [simp]: "deref None = None" "deref (Some p) = p"
  by (simp_all add: deref_def)

lemma length_g_primes: "length g_primes = 26"
  by (simp add: g_primes_def)

lemma prime_index_link_node [simp]: "prime_index (link_node ht index n) = prime_index ht"
  by (simp add: link_node_def Let_def)

lemma capacity_link_node [simp]: "capacity (link_node ht index n) = capacity ht"
  by (simp add: link_node_def Let_def)

lemma ht_create_Some:
  assumes "ht_create al (sint w) = Some (Some new, al')"
  shows "prime_index new = w \<and> unat w < length g_primes
         \<and> capacity new = ucast (g_primes ! unat w) \<and> size' new = 0
         \<and> pp_items new = replicate (unat (capacity new)) []"
  using assms
  by (auto simp: ht_create_def Let_def split: prod.splits bool.splits if_splits)

lemma rank_left_create:
  assumes "ht_create al (sint (prime_index ht + 1)) = Some (p_new, al')"
  shows "rank_left p_new < rank_left (Some ht)"
proof (cases p_new)
  case None
  then show ?thesis by (simp add: rank_left_def)
next
  case (Some new)
  with assms ht_create_Some [of al "prime_index ht + 1" new al']
  have new: "prime_index new = prime_index ht + 1" "unat (prime_index ht + 1) < length g_primes"
    by auto
  show ?thesis
  proof (cases "unat (prime_index ht) < length g_primes")
    case True
    then have "unat (prime_index ht + 1) = unat (prime_index ht) + 1"
      by (simp add: length_g_primes unat_word_ariths)
    then show ?thesis
      using True new Some by (simp add: rank_left_def)
  next
    case False
    then show ?thesis
      using new Some by (simp add: rank_left_def)
  qed
qed

lemma rank_left_partial:
  "ht_insert_rehash_dom (Inl (al, pp :: 'v ht_t option option, k, v)) \<Longrightarrow>
     (\<forall>r p' al'. ht_insert al pp k v = Some (r, p', al') \<longrightarrow>
        rank_left p' \<le> rank_left (deref pp))"
  "ht_insert_rehash_dom (Inr (al0, p :: 'v ht_t option, nodes)) \<Longrightarrow>
     (\<forall>r p' al'. rehash al0 p nodes = Some (r, p', al') \<longrightarrow> rank_left p' \<le> rank_left p)"
proof (induct al pp k v and al0 p nodes rule: ht_insert_rehash.pinduct)
  case (1 al pp_ht p_key' p_value')
  have IH: "rank_left p2 \<le> rank_left p_new"
    if "pp_ht = Some (Some ht)" "malloc al = (True, al1)" "p_key' = Some key"
      "bucket_index ht key = Some index"
      "double_0_8 < load_factor (link_node ht index \<lparr>p_key = key, p_value = p_value'\<rparr>)"
      "ht_create al1 (sint (prime_index ht + 1)) = Some (p_new, al2)"
      "ht_nodes (link_node ht index \<lparr>p_key = key, p_value = p_value'\<rparr>) = Some nodes"
      "rehash al2 p_new nodes = Some (rv, p2, al3)"
    for ht al1 key index p_new al2 nodes rv p2 al3
    using "1.hyps"(2) [OF that(1) refl that(2) [symmetric] refl that(3) that(4) refl that(5) _ refl that(7),
        of p_new al2] that(6) that(8)
    by simp
  show ?case
  proof (intro allI impI)
    fix r p' al'
    assume "ht_insert al pp_ht p_key' p_value' = Some (r, p', al')"
    note res = this [unfolded ht_insert.psimps [OF "1.hyps"(1)]]
    show "rank_left p' \<le> rank_left (deref pp_ht)"
    proof (cases pp_ht)
      case None
      then show ?thesis using res by (simp add: rank_left_def)
    next
      case (Some p_ht)
      note pp = this
      show ?thesis
      proof (cases p_ht)
        case None
        then show ?thesis using res pp
          by (simp add: rank_left_def)
      next
        case (Some ht)
        note ht = this
        obtain ok al1 where m: "malloc al = (ok, al1)"
          by (cases "malloc al")
        show ?thesis
        proof (cases "ok \<and> p_key' \<noteq> None \<and> bucket_index ht (the p_key') \<noteq> None
                 \<and> double_0_8 < load_factor (link_node ht (the (bucket_index ht (the p_key')))
                       \<lparr>p_key = the p_key', p_value = p_value'\<rparr>)")
          case False
          then show ?thesis using res pp ht m
            by (auto simp: Let_def rank_left_def
                split: option.splits if_splits bool.splits)
        next
          case True
          then obtain key index where k: "p_key' = Some key" and b: "bucket_index ht key = Some index"
            by auto
          define ht1 where "ht1 = link_node ht index \<lparr>p_key = key, p_value = p_value'\<rparr>"
          have lf: "double_0_8 < load_factor ht1" and ok: "ok"
            using True k b by (simp_all add: ht1_def)
          from res obtain p_new al2 nodes rv p2 al3
            where c: "ht_create al1 (sint (prime_index ht + 1)) = Some (p_new, al2)"
              and n: "ht_nodes ht1 = Some nodes"
              and rh: "rehash al2 p_new nodes = Some (rv, p2, al3)"
              and p': "p' = Some ht1 \<or> p' = p2"
            using pp ht m ok k b lf
            by (auto simp: Let_def ht1_def
                split: option.splits if_splits bool.splits)
          have "rank_left p2 \<le> rank_left p_new"
            using IH [OF _ _ k b _ c _ rh] pp ht m ok lf n by (simp add: ht1_def)
          moreover have "rank_left p_new < rank_left (Some ht)"
            using rank_left_create [OF c] .
          moreover have "rank_left (Some ht1) = rank_left (Some ht)"
            by (simp add: rank_left_def ht1_def)
          ultimately show ?thesis
            using p' pp ht by auto
        qed
      qed
    qed
  qed
next
  case (2 al p_new_ht)
  then show ?case by (simp add: rehash.psimps)
next
  case (3 al p_new_ht p_node rest)
  show ?case
  proof (intro allI impI)
    fix r p' al'
    assume "rehash al p_new_ht (p_node # rest) = Some (r, p', al')"
    note res = this [unfolded rehash.psimps(2) [OF "3.hyps"(1)]]
    from res obtain rv p1 al1 where
      ins: "ht_insert al (Some p_new_ht) (Some (p_key p_node)) (p_value p_node) = Some (rv, p1, al1)"
      by (auto split: option.splits)
    have le1: "rank_left p1 \<le> rank_left p_new_ht"
      using "3.hyps"(2) ins by auto
    show "rank_left p' \<le> rank_left p_new_ht"
    proof (cases "rv = E_SUCCESS")
      case True
      then have "rehash al1 p1 rest = Some (r, p', al')"
        using res ins by simp
      then have "rank_left p' \<le> rank_left p1"
        using "3.hyps"(3) [OF ins refl refl] True by auto
      then show ?thesis using le1 by simp
    next
      case False
      then show ?thesis
        using res ins le1 by simp
    qed
  qed
qed


termination ht_insert
proof (relation "measures
      [\<lambda>x. case x of Inl (al, pp, k, v) \<Rightarrow> rank_left (deref pp) | Inr (al, p, nodes) \<Rightarrow> rank_left p,
       \<lambda>x. case x of Inl (al, pp, k, v) \<Rightarrow> 0 | Inr (al, p, nodes) \<Rightarrow> 1,
       \<lambda>x. case x of Inl (al, pp, k, v) \<Rightarrow> 0 | Inr (al, p, nodes) \<Rightarrow> length nodes]",
    goal_cases)
  case 1
  show ?case by simp
next
  case (2 al pp_ht p_key' p_value' x2 x2a x y x2b x2c xa x2d xb ya x2e)
  then have "ht_create y (sint (prime_index x2a + 1)) = Some (xb, ya)"
    by simp
  from rank_left_create [OF this] show ?case
    using 2 by simp
next
  case (3 al p_new_ht p_node rest)
  show ?case by simp
next
  case (4 al p_new_ht p_node rest x2 x y xa ya)
  then have "ht_insert al (Some p_new_ht) (Some (p_key p_node)) (p_value p_node) = Some (x, xa, ya)"
    by simp
  with rank_left_partial(1) [OF 4(5)] have "rank_left xa \<le> rank_left p_new_ht"
    by auto
  then show ?case
    by auto
qed

declare ht_insert.simps [simp del]

subsection \<open>ht\_delete\<close>

text \<open>
  The loop of \<open>ht_delete\<close> walks the chain through a pointer to the link; the first
  node for which \<open>strncmp(p_key, node->p_key, strlen(p_key))\<close> is 0 is unlinked.
  \<open>chain_delete\<close> returns the chain without that node, \<open>None\<close> when the loop ends
  without a match. The table is changed in place: the second component of the result
  is the table behind \<open>p_ht\<close> after the call. The \<open>printf\<close> is not modelled.
\<close>

fun chain_delete :: "string \<Rightarrow> 'v node_t list \<Rightarrow> 'v node_t list option" where
  "chain_delete key [] = None"
| "chain_delete key (node # rest) =
     (if strncmp key (p_key node) (strlen key) = 0 then Some rest
      else (case chain_delete key rest of
              None \<Rightarrow> None
            | Some rest' \<Rightarrow> Some (node # rest')))"

definition ht_delete ::
    "'v ht_t option \<Rightarrow> string option \<Rightarrow> (error_t \<times> 'v ht_t option) option" where
  "ht_delete p_ht p_key' =
     (case p_ht of
        None \<Rightarrow> Some (E_NULL_PTR, None)
      | Some ht \<Rightarrow>
          (case p_key' of
             None \<Rightarrow> Some (E_NULL_PTR, Some ht)
           | Some key \<Rightarrow>
               (case bucket_index ht key of
                  None \<Rightarrow> None
                | Some index \<Rightarrow>
                    (case chain_delete key (pp_items ht ! index) of
                       Some chain \<Rightarrow>
                         Some (E_SUCCESS,
                               Some (ht\<lparr>pp_items := (pp_items ht)[index := chain],
                                        size' := size' ht - 1\<rparr>))
                     | None \<Rightarrow> Some (E_NODE_NOT_FOUND, Some ht)))))"

subsection \<open>ht\_search\<close>

text \<open>
  The result is \<open>None\<close> for undefined behaviour (a null key reaches \<open>strlen\<close>),
  otherwise the pointer returned, \<open>None\<close> inside for \<open>NULL\<close>.
\<close>

fun chain_search :: "string \<Rightarrow> 'v node_t list \<Rightarrow> 'v option" where
  "chain_search key [] = None"
| "chain_search key (node # rest) =
     (if strcmp key (p_key node) = 0 then p_value node else chain_search key rest)"

definition ht_search :: "'v ht_t option \<Rightarrow> string option \<Rightarrow> 'v option option" where
  "ht_search p_ht p_key' =
     (case p_ht of
        None \<Rightarrow> Some None
      | Some ht \<Rightarrow>
          (case p_key' of
             None \<Rightarrow> None
           | Some key \<Rightarrow>
               (case bucket_index ht key of
                  None \<Rightarrow> None
                | Some index \<Rightarrow> Some (chain_search key (pp_items ht ! index)))))"

section \<open>Properties of the single-precision load factor\<close>

lemma powi_mono: "a \<le> b \<Longrightarrow> (2::rat) powi a \<le> 2 powi b"
  by (simp add: power_int_increasing)

lemma powi_strict: "a < b \<Longrightarrow> (2::rat) powi a < 2 powi b"
  by (simp add: power_int_strict_increasing)

lemma float_exponent_bounds:
  assumes "0 < x"
  shows "2 powi float_exponent x \<le> x \<and> x < 2 powi (float_exponent x + 1)"
proof -
  obtain p q where pq: "quotient_of x = (p, q)"
    by (cases "quotient_of x")
  have q: "0 < q" and x: "x = of_int p / of_int q"
    using quotient_of_denom_pos [OF pq] quotient_of_div [OF pq] by auto
  have p: "0 < p"
    using assms q x by (simp add: zero_less_divide_iff)
  define d where "d = bitlen p - bitlen q"
  have bp: "2 ^ nat (bitlen p - 1) \<le> p" "p < 2 ^ nat (bitlen p)"
    using bitlen_bounds [OF p] by auto
  have bq: "2 ^ nat (bitlen q - 1) \<le> q" "q < 2 ^ nat (bitlen q)"
    using bitlen_bounds [OF q] by auto
  have lp: "1 \<le> bitlen p" and lq: "1 \<le> bitlen q"
    using p q by (simp_all add: bitlen_def floorlog_def) 
  have P1: "(2::rat) powi (bitlen p - 1) \<le> of_int p" "(of_int p :: rat) < 2 powi bitlen p"
    using bp lp by (simp_all add: power_int_def)
  have Q1: "(2::rat) powi (bitlen q - 1) \<le> of_int q" "(of_int q :: rat) < 2 powi bitlen q"
    using bq lq by (simp_all add: power_int_def)
  have lo: "2 powi (d - 1) \<le> x"
  proof -
    have "(2::rat) powi (d - 1) * of_int q \<le> 2 powi (d - 1) * 2 powi bitlen q"
      using Q1(2) by (simp add: mult_left_mono)
    also have "\<dots> = 2 powi (bitlen p - 1)"
      by (simp add: d_def flip: power_int_add)
    also have "\<dots> \<le> of_int p" by (rule P1)
    finally show ?thesis
      using q by (simp add: x pos_le_divide_eq)
  qed
  have hi: "x < 2 powi (d + 1)"
  proof -
    have "of_int p < (2::rat) powi bitlen p" by (rule P1)
    also have "\<dots> = 2 powi (d + 1) * 2 powi (bitlen q - 1)"
      by (simp add: d_def flip: power_int_add)
    also have "\<dots> \<le> 2 powi (d + 1) * of_int q"
      using Q1(1) by (simp add: mult_left_mono)
    finally show ?thesis
      using q by (simp add: x pos_divide_less_eq)
  qed
  have fe: "float_exponent x = (if 2 powi d \<le> x then d else d - 1)"
    by (simp add: float_exponent_def pq d_def Let_def)
  show ?thesis
    using lo hi by (auto simp: fe add.commute)
qed


lemma float_exponent_unique:
  assumes "2 powi e \<le> x" "x < 2 powi (e + 1)"
  shows "float_exponent x = e"
proof -
  have "0 < x"
    using assms(1) by (rule less_le_trans [rotated]) simp
  from float_exponent_bounds [OF this]
  have b: "2 powi float_exponent x \<le> x" "x < 2 powi (float_exponent x + 1)"
    by auto
  have "(2::rat) powi e < 2 powi (float_exponent x + 1)"
    using assms(1) b(2) by simp
  then have 1: "e < float_exponent x + 1"
    using powi_mono [of "float_exponent x + 1" e] by (cases "e < float_exponent x + 1") auto
  have "(2::rat) powi float_exponent x < 2 powi (e + 1)"
    using assms(2) b(1) by simp
  then have 2: "float_exponent x < e + 1"
    using powi_mono [of "e + 1" "float_exponent x"] by (cases "float_exponent x < e + 1") auto
  from 1 2 show ?thesis by simp
qed

lemma round_half_even_of_int [simp]: "round_half_even (of_int n) = n"
  by (simp add: round_half_even_def)

lemma round_half_even_bounds:
  "of_int (round_half_even x) \<le> x + 1 / 2" "x - 1 / 2 \<le> of_int (round_half_even x)"
  by (auto simp: round_half_even_def Let_def) linarith+

lemma round_half_even_mono:
  assumes "x \<le> y"
  shows "round_half_even x \<le> round_half_even y"
proof (cases "\<lfloor>x\<rfloor> = \<lfloor>y\<rfloor>")
  case True
  then show ?thesis
    using assms by (auto simp: round_half_even_def Let_def)
next
  case False
  then have "\<lfloor>x\<rfloor> + 1 \<le> \<lfloor>y\<rfloor>"
    using floor_mono [OF assms] by simp
  moreover have "round_half_even x \<le> \<lfloor>x\<rfloor> + 1" "\<lfloor>y\<rfloor> \<le> round_half_even y"
    by (auto simp: round_half_even_def Let_def)
  ultimately show ?thesis by simp
qed

lemma round_half_even_ge_iff:
  assumes "even k"
  shows "k + 1 \<le> round_half_even x \<longleftrightarrow> of_int k + 1 / 2 < x"
proof
  assume l: "k + 1 \<le> round_half_even x"
  show "of_int k + 1 / 2 < x"
  proof (rule ccontr)
    assume "\<not> of_int k + 1 / 2 < x"
    then have "x \<le> of_int k + 1 / 2" by simp
    then have "round_half_even x \<le> round_half_even (of_int k + 1 / 2)"
      by (rule round_half_even_mono)
    also have "round_half_even (of_int k + 1 / 2 :: rat) = k"
    proof -
      have "\<lfloor>of_int k + 1 / 2 :: rat\<rfloor> = k"
        by (simp add: floor_eq_iff)
      then show ?thesis
        using assms by (simp add: round_half_even_def Let_def)
    qed
    finally show False using l by simp
  qed
next
  assume r: "of_int k + 1 / 2 < x"
  then have "k \<le> \<lfloor>x\<rfloor>"
    by (simp add: le_floor_iff)
  then consider "k + 1 \<le> \<lfloor>x\<rfloor>" | "\<lfloor>x\<rfloor> = k"
    by linarith
  then show "k + 1 \<le> round_half_even x"
  proof cases
    case 1
    moreover have "\<lfloor>x\<rfloor> \<le> round_half_even x"
      by (auto simp: round_half_even_def Let_def)
    ultimately show ?thesis by simp
  next
    case 2
    then show ?thesis
      using r by (auto simp: round_half_even_def Let_def)
  qed
qed


lemma to_float_eq:
  assumes "2 powi e \<le> x" "x < 2 powi (e + 1)"
  shows "to_float x = of_int (round_half_even (x / 2 powi (e - 23))) * 2 powi (e - 23)"
proof -
  have "0 < x"
    using assms(1) by (rule less_le_trans [rotated]) simp
  then show ?thesis
    by (simp add: to_float_def float_exponent_unique [OF assms] Let_def)
qed

lemma scaled_bounds:
  fixes x :: rat
  assumes "2 powi e \<le> x" "x < 2 powi (e + 1)"
  shows "2 ^ 23 \<le> x / 2 powi (e - 23)" "x / 2 powi (e - 23) < 2 ^ 24"
proof -
  have u: "(0::rat) < 2 powi (e - 23)" by simp
  have "(2::rat) ^ 23 * 2 powi (e - 23) = 2 powi e"
    by (simp add: power_int_diff)
  then show "2 ^ 23 \<le> x / 2 powi (e - 23)"
    using assms(1) u by (simp add: pos_le_divide_eq)
  have "(2::rat) ^ 24 * 2 powi (e - 23) = 2 powi (e + 1)"
    by (simp add: power_int_diff power_int_add)
  then show "x / 2 powi (e - 23) < 2 ^ 24"
    using assms(2) u by (simp add: pos_divide_less_eq)
qed

lemma to_float_bounds:
  fixes x :: rat
  assumes "2 powi e \<le> x" "x < 2 powi (e + 1)"
  shows "2 powi e \<le> to_float x" "to_float x \<le> 2 powi (e + 1)"
proof -
  note sb = scaled_bounds [OF assms]
  have "round_half_even (of_int (2 ^ 23)) \<le> round_half_even (x / 2 powi (e - 23))"
    using sb(1) by (intro round_half_even_mono) simp
  then have lo: "(2::rat) ^ 23 \<le> of_int (round_half_even (x / 2 powi (e - 23)))"
    by (metis round_half_even_of_int of_int_le_iff of_int_numeral of_int_power)
  have "round_half_even (x / 2 powi (e - 23)) \<le> round_half_even (of_int (2 ^ 24))"
    using sb(2) by (intro round_half_even_mono) simp
  then have hi: "of_int (round_half_even (x / 2 powi (e - 23))) \<le> (2::rat) ^ 24"
    by (metis round_half_even_of_int of_int_le_iff of_int_numeral of_int_power)
  have e1: "(2::rat) ^ 23 * 2 powi (e - 23) = 2 powi e"
    by (simp add: power_int_diff)
  have e2: "(2::rat) ^ 24 * 2 powi (e - 23) = 2 powi (e + 1)"
    by (simp add: power_int_diff power_int_add)
  show "2 powi e \<le> to_float x"
    using mult_right_mono [OF lo, of "2 powi (e - 23)"]
    by (simp only: to_float_eq [OF assms] e1) simp
  show "to_float x \<le> 2 powi (e + 1)"
    using mult_right_mono [OF hi, of "2 powi (e - 23)"]
    by (simp only: to_float_eq [OF assms] e2) simp
qed

lemma to_float_pos: "0 < x \<Longrightarrow> 0 < to_float x"
  using float_exponent_bounds [of x] to_float_bounds(1) [of "float_exponent x" x]
  by (auto intro: less_le_trans [rotated])

lemma to_float_mono:
  assumes "0 < x" "x \<le> y"
  shows "to_float x \<le> to_float y"
proof -
  have y: "0 < y" using assms by simp
  note bx = float_exponent_bounds [OF assms(1)] and bndy = float_exponent_bounds [OF y]
  have "(2::rat) powi float_exponent x < 2 powi (float_exponent y + 1)"
    using bx bndy assms(2) by simp
  then have le: "float_exponent x \<le> float_exponent y"
    using powi_mono [of "float_exponent y + 1" "float_exponent x"]
    by (cases "float_exponent x \<le> float_exponent y") auto
  show ?thesis
  proof (cases "float_exponent x = float_exponent y")
    case True
    have "x / 2 powi (float_exponent y - 23) \<le> y / 2 powi (float_exponent y - 23)"
      using assms(2) by (simp add: divide_right_mono)
    from round_half_even_mono [OF this] show ?thesis
      using assms(1) y True by (simp add: to_float_def Let_def mult_right_mono)
  next
    case False
    then have "float_exponent x + 1 \<le> float_exponent y"
      using le by simp
    then have "(2::rat) powi (float_exponent x + 1) \<le> 2 powi float_exponent y"
      by (rule powi_mono)
    moreover have "to_float x \<le> 2 powi (float_exponent x + 1)"
      using to_float_bounds(2) bx by blast
    moreover have "2 powi float_exponent y \<le> to_float y"
      using to_float_bounds(1) bndy by blast
    ultimately show ?thesis by simp
  qed
qed

lemma to_float_exact:
  assumes "0 < n" "n < 2 ^ 24"
  shows "to_float (of_nat n) = of_nat n"
proof -
  define x :: rat where "x = of_nat n"
  have x: "0 < x" "x < 2 ^ 24"
    using assms by (simp_all add: x_def)
  define e where "e = float_exponent x"
  have b: "2 powi e \<le> x" "x < 2 powi (e + 1)"
    using float_exponent_bounds [OF x(1)] by (simp_all add: e_def)
  have "(2::rat) powi e < 2 powi 24"
    using b(1) x(2) by simp
  then have e: "e \<le> 23"
    using powi_mono [of 24 e] by (cases "e \<le> 23") auto
  have "(1::rat) \<le> x"
    using assms(1) by (simp add: x_def)
  then have "(2::rat) powi 0 < 2 powi (e + 1)"
    using b(2) by simp
  then have e0: "0 \<le> e"
    using powi_mono [of "e + 1" 0] by (cases "0 \<le> e") auto
  have "x / 2 powi (e - 23) = of_int (int n * 2 ^ nat (23 - e))"
    using e e0 by (simp add: x_def power_int_def power_one_over)
  then have "round_half_even (x / 2 powi (e - 23)) = int n * 2 ^ nat (23 - e)"
    by (simp only: round_half_even_of_int)
  then have "to_float x = of_int (int n * 2 ^ nat (23 - e)) * 2 powi (e - 23)"
    by (simp add: to_float_eq [OF b])
  also have "\<dots> = x"
    using e e0 by (simp add: x_def power_int_def power_one_over)
  finally show ?thesis by (simp add: x_def)
qed

lemma to_float_gt_0_8_iff:
  assumes "0 < x"
  shows "double_0_8 < to_float x \<longleftrightarrow> 26843545 / 2 ^ 25 < x"
proof -
  define e where "e = float_exponent x"
  have b: "2 powi e \<le> x" "x < 2 powi (e + 1)"
    using float_exponent_bounds [OF assms] by (simp_all add: e_def)
  consider "0 \<le> e" | "e \<le> - 2" | "e = - 1"
    by linarith
  then show ?thesis
  proof cases
    case 1
    then have "(2::rat) powi 0 \<le> 2 powi e"
      by (rule powi_mono)
    then have "1 \<le> x" "1 \<le> to_float x"
      using b to_float_bounds(1) [OF b] by simp_all
    then show ?thesis
      by (simp add: double_0_8_def)
  next
    case 2
    then have "(2::rat) powi (e + 1) \<le> 2 powi (- 1)"
      by (intro powi_mono) simp
    then have "x < 1 / 2" "to_float x \<le> 1 / 2"
      using b to_float_bounds(2) [OF b] by (simp_all add: power_int_minus)
    then show ?thesis
      by (simp add: double_0_8_def)
  next
    case 3
    have tf: "to_float x = of_int (round_half_even (x * 2 ^ 24)) / 2 ^ 24"
      using to_float_eq [OF b] 3 by (simp add: power_int_minus field_simps)
    have "double_0_8 < to_float x \<longleftrightarrow> 13421772 + 1 \<le> round_half_even (x * 2 ^ 24)"
      unfolding tf double_0_8_def
      by (simp add: pos_less_divide_eq) linarith
    also have "\<dots> \<longleftrightarrow> of_int 13421772 + 1 / 2 < x * 2 ^ 24"
      by (rule round_half_even_ge_iff) simp
    also have "\<dots> \<longleftrightarrow> 26843545 / 2 ^ 25 < x"
      by (simp add: field_simps)
    finally show ?thesis .
  qed
qed

lemma floor_numeral_div: "\<lfloor>(numeral a :: rat) / numeral b\<rfloor> = numeral a div numeral b"
  by (metis floor_divide_of_int_eq of_int_numeral)

text \<open>The load factor as a function of the two counters.\<close>

definition float_ratio :: "nat \<Rightarrow> nat \<Rightarrow> rat" where
  "float_ratio s c = to_float (to_float (of_nat s) / to_float (of_nat c))"

lemma load_factor_float_ratio: "load_factor ht = float_ratio (unat (size' ht)) (unat (capacity ht))"
  by (simp add: load_factor_def float_ratio_def)

lemma float_ratio_zero: "\<not> double_0_8 < float_ratio 0 c" "\<not> double_0_8 < float_ratio s 0"
  by (simp_all add: float_ratio_def to_float_def double_0_8_def)

lemma float_ratio_small:
  assumes "0 < c" "c < 2 ^ 24" "s < 2 ^ 24"
  shows "double_0_8 < float_ratio s c \<longleftrightarrow> 26843545 * c < 2 ^ 25 * s"
proof (cases "s = 0")
  case True
  then show ?thesis using float_ratio_zero(1) [of c] by simp
next
  case False
  then have s: "0 < s" by simp
  have q: "(0::rat) < of_nat s / of_nat c"
    using assms(1) s by simp
  have "double_0_8 < float_ratio s c \<longleftrightarrow> 26843545 / 2 ^ 25 < (of_nat s :: rat) / of_nat c"
    using to_float_gt_0_8_iff [OF q]
    by (simp add: float_ratio_def to_float_exact [OF assms(1,2)] to_float_exact [OF s assms(3)])
  also have "\<dots> \<longleftrightarrow> (26843545 :: rat) * of_nat c < 2 ^ 25 * of_nat s"
    using assms(1) by (simp add: field_simps)
  also have "\<dots> \<longleftrightarrow> 26843545 * c < 2 ^ 25 * s"
  proof -
    have "(26843545 :: rat) * of_nat c = of_nat (26843545 * c)" by simp
    moreover have "(2 ^ 25 :: rat) * of_nat s = of_nat (2 ^ 25 * s)" by simp
    ultimately show ?thesis by (simp only: of_nat_less_iff)
  qed
  finally show ?thesis .
qed

lemma float_ratio_mono:
  assumes "s \<le> s'" and "double_0_8 < float_ratio s c"
  shows "double_0_8 < float_ratio s' c"
proof -
  have s: "0 < s"
    using assms(2) float_ratio_zero(1) [of c] by (cases "s = 0") simp_all
  have c: "0 < c"
    using assms(2) float_ratio_zero(2) [of s] by (cases "c = 0") simp_all
  have cpos: "0 < to_float (of_nat c)"
    using c by (intro to_float_pos) simp
  have 1: "to_float (of_nat s) \<le> to_float (of_nat s')"
    using s assms(1) by (intro to_float_mono) simp_all
  have 2: "0 < to_float (of_nat s)"
    using s by (intro to_float_pos) simp
  have q: "0 < to_float (of_nat s) / to_float (of_nat c)"
    using 2 cpos by simp
  have le: "to_float (of_nat s) / to_float (of_nat c) \<le> to_float (of_nat s') / to_float (of_nat c)"
    using 1 cpos by (simp add: divide_right_mono)
  have "float_ratio s c \<le> float_ratio s' c"
    unfolding float_ratio_def by (rule to_float_mono [OF q le])
  then show ?thesis using assms(2) by simp
qed

section \<open>Basic properties of the table operations\<close>

lemma strcmp_eq_0_iff: "strcmp a b = 0 \<longleftrightarrow> a = b"
  by (induction a b rule: strcmp.induct) auto

lemma strncmp_eq_0_iff: "strncmp a b n = 0 \<longleftrightarrow> take n a = take n b"
  by (induction a b n rule: strncmp.induct) auto

lemma strncmp_strlen_iff: "strncmp key s (strlen key) = 0 \<longleftrightarrow> prefix key s"
proof -
  have "take (length key) s = key \<longleftrightarrow> prefix key s"
    by (metis append_eq_conv_conj prefix_def take_is_prefix append_take_drop_id)
  then show ?thesis
    by (auto simp: strncmp_eq_0_iff strlen_def)
qed

text \<open>
  The resize block of \<open>ht_insert\<close> (lines 150 to 182) as a function of the table after
  the new node is linked, and \<open>ht_insert\<close> unfolded once.
\<close>

definition ht_resize :: "bool list \<Rightarrow> 'v ht_t \<Rightarrow> (error_t \<times> 'v ht_t option \<times> bool list) option" where
  "ht_resize al1 ht1 =
     (case ht_create al1 (sint (prime_index ht1 + 1)) of
        None \<Rightarrow> None
      | Some (p_new_ht, al2) \<Rightarrow>
          (case ht_nodes ht1 of
             None \<Rightarrow> None
           | Some nodes \<Rightarrow>
               (case rehash al2 p_new_ht nodes of
                  None \<Rightarrow> None
                | Some (retval, p_new_ht, al3) \<Rightarrow>
                    if retval \<noteq> E_SUCCESS then Some (retval, Some ht1, al3)
                    else (case ht_destroy (Some ht1) of
                            None \<Rightarrow> None
                          | Some retval \<Rightarrow>
                              if retval \<noteq> E_SUCCESS then Some (retval, Some ht1, al3)
                              else Some (E_SUCCESS, p_new_ht, al3)))))"

lemma ht_insert_null [simp]:
  "ht_insert al None k v = Some (E_NULL_PTR, None, al)"
  "ht_insert al (Some None) k v = Some (E_NULL_PTR, None, al)"
  by (simp_all add: ht_insert.simps)

lemma ht_insert_unfold:
  "ht_insert al (Some (Some ht)) k v =
     (case malloc al of
        (False, al1) \<Rightarrow> Some (E_NULL_PTR, Some ht, al1)
      | (True, al1) \<Rightarrow>
          (case k of
             None \<Rightarrow> None
           | Some key \<Rightarrow>
               (case bucket_index ht key of
                  None \<Rightarrow> None
                | Some index \<Rightarrow>
                    (let ht1 = link_node ht index \<lparr>p_key = key, p_value = v\<rparr> in
                     if double_0_8 < load_factor ht1 then ht_resize al1 ht1
                     else Some (E_SUCCESS, Some ht1, al1)))))"
  by (subst ht_insert.simps) (simp add: ht_resize_def Let_def split: option.splits prod.splits bool.splits)

lemma bucket_index_less: "bucket_index ht key = Some index \<Longrightarrow> index < length (pp_items ht)"
  by (auto simp: bucket_index_def Let_def split: option.splits if_splits)

lemma chain_delete_find:
  "chain_delete key chain =
     map_option (\<lambda>n. remove1 n chain) (find (\<lambda>n. prefix key (p_key n)) chain)"
proof (induction chain)
  case Nil
  show ?case by simp
next
  case (Cons a chain)
  show ?case
  proof (cases "prefix key (p_key a)")
    case True
    then show ?thesis by (simp add: strncmp_strlen_iff)
  next
    case False
    then have "n \<noteq> a" if "find (\<lambda>n. prefix key (p_key n)) chain = Some n" for n
      using that by (auto simp: find_Some_iff)
    then show ?thesis
      using False Cons.IH
      by (cases "find (\<lambda>n. prefix key (p_key n)) chain") (simp_all add: strncmp_strlen_iff)
  qed
qed

lemma chain_search_find:
  "chain_search key chain =
     (case find (\<lambda>n. p_key n = key) chain of None \<Rightarrow> None | Some n \<Rightarrow> p_value n)"
  by (induction chain) (auto simp: strcmp_eq_0_iff)

subsection \<open>Induction over ht\_insert and the resize loop\<close>

lemma ht_insert_rehash_induct [case_names insert rehash_Nil rehash_Cons]:
  fixes P :: "bool list \<Rightarrow> 'v ht_t option option \<Rightarrow> string option \<Rightarrow> 'v option \<Rightarrow> bool"
    and Q :: "bool list \<Rightarrow> 'v ht_t option \<Rightarrow> 'v node_t list \<Rightarrow> bool"
  assumes ins: "\<And>al pp k v.
      (\<And>ht key index al1 p_new al2 nodes.
          pp = Some (Some ht) \<Longrightarrow> malloc al = (True, al1) \<Longrightarrow> k = Some key \<Longrightarrow>
          bucket_index ht key = Some index \<Longrightarrow>
          double_0_8 < load_factor (link_node ht index \<lparr>p_key = key, p_value = v\<rparr>) \<Longrightarrow>
          ht_create al1 (sint (prime_index ht + 1)) = Some (p_new :: 'v ht_t option, al2) \<Longrightarrow>
          ht_nodes (link_node ht index \<lparr>p_key = key, p_value = v\<rparr>) = Some nodes \<Longrightarrow>
          Q al2 p_new nodes)
      \<Longrightarrow> P al pp k v"
    and nil: "\<And>al p. Q al p []"
    and cons: "\<And>al p n rest.
      P al (Some p) (Some (p_key n)) (p_value n) \<Longrightarrow>
      (\<And>p' al'. ht_insert al (Some p) (Some (p_key n)) (p_value n) = Some (E_SUCCESS, p', al')
          \<Longrightarrow> Q al' p' rest)
      \<Longrightarrow> Q al p (n # rest)"
  shows "P al0 pp0 k0 v0" and "Q al1 p1 nodes1"
proof (induct al0 pp0 k0 v0 and al1 p1 nodes1 rule: ht_insert_rehash.induct)
  case (1 al pp_ht p_key' p_value')
  show ?case
  proof (rule ins)
    fix ht :: "'v ht_t" and key index al1 and p_new :: "'v ht_t option" and al2 nodes
    assume a: "pp_ht = Some (Some ht)" "malloc al = (True, al1)" "p_key' = Some key"
      "bucket_index ht key = Some index"
      "double_0_8 < load_factor (link_node ht index \<lparr>p_key = key, p_value = p_value'\<rparr>)"
      "ht_create al1 (sint (prime_index ht + 1)) = Some (p_new, al2)"
      "ht_nodes (link_node ht index \<lparr>p_key = key, p_value = p_value'\<rparr>) = Some nodes"
    show "Q al2 p_new nodes"
      using "1.hyps" [OF a(1) refl a(2) [symmetric] refl a(3) a(4) refl a(5) _ refl a(7), of p_new al2]
        a(6)
      by simp
  qed
next
  case (2 al p_new_ht)
  show ?case by (rule nil)
next
  case (3 al p_new_ht p_node rest)
  show ?case
  proof (rule cons)
    show "P al (Some p_new_ht) (Some (p_key p_node)) (p_value p_node)"
      by (rule "3.hyps"(1))
    fix p' al'
    assume "ht_insert al (Some p_new_ht) (Some (p_key p_node)) (p_value p_node) = Some (E_SUCCESS, p', al')"
    from "3.hyps"(2) [OF this refl refl] show "Q al' p' rest"
      by simp
  qed
qed

lemma rehash_Nil [simp]: "rehash al p [] = Some (E_SUCCESS, p, al)"
  by simp

lemma rehash_step:
  "rehash al p (n # rest) =
     (case ht_insert al (Some p) (Some (p_key n)) (p_value n) of
        None \<Rightarrow> None
      | Some (retval, p', al') \<Rightarrow>
          if retval \<noteq> E_SUCCESS then Some (retval, p', al') else rehash al' p' rest)"
  by simp

text \<open>An invariant of the tables that holds of a fresh table and is kept by linking a node
  is kept by every insert, whatever it returns.\<close>

lemma insert_invariant:
  fixes I :: "'v ht_t \<Rightarrow> bool"
  assumes create: "\<And>al (w :: u32) new al'. ht_create al (sint w) = Some (Some new, al') \<Longrightarrow> I new"
    and link: "\<And>ht key index v. I ht \<Longrightarrow> bucket_index ht key = Some index
                 \<Longrightarrow> I (link_node ht index \<lparr>p_key = key, p_value = v\<rparr>)"
  shows "\<forall>r p' al' t'. (\<forall>t. pp = Some (Some t) \<longrightarrow> I t) \<longrightarrow>
           ht_insert al pp k v = Some (r, p', al') \<longrightarrow> p' = Some t' \<longrightarrow> I t'"
    and "\<forall>r p' al' t'. (\<forall>t. p = Some t \<longrightarrow> I t) \<longrightarrow>
           rehash al0 p nodes = Some (r, p', al') \<longrightarrow> p' = Some t' \<longrightarrow> I t'"
proof (induct al pp k v and al0 p nodes rule: ht_insert_rehash_induct)
  case (insert al pp k v)
  show ?case
  proof (intro allI impI)
    fix r p' al' t'
    assume inv: "\<forall>t. pp = Some (Some t) \<longrightarrow> I t"
      and res: "ht_insert al pp k v = Some (r, p', al')" and p': "p' = Some t'"
    from res p' obtain ht where pp: "pp = Some (Some ht)"
      by (cases pp; cases "the pp") auto
    then have I: "I ht" using inv by simp
    obtain ok al1 where m: "malloc al = (ok, al1)"
      by (cases "malloc al")
    show "I t'"
    proof (cases ok)
      case False
      then show ?thesis using res p' pp m I by (simp add: ht_insert_unfold)
    next
      case True
      then have m': "malloc al = (True, al1)" using m by simp
      from True res pp m obtain key index where k: "k = Some key" and b: "bucket_index ht key = Some index"
        by (auto simp: ht_insert_unfold split: option.splits)
      define ht1 where "ht1 = link_node ht index \<lparr>p_key = key, p_value = v\<rparr>"
      have I1: "I ht1" unfolding ht1_def by (rule link [OF I b])
      show ?thesis
      proof (cases "double_0_8 < load_factor ht1")
        case False
        then show ?thesis
          using res p' pp m True k b I1 by (simp add: ht_insert_unfold ht1_def)
      next
        case lf: True
        then have rs: "ht_resize al1 ht1 = Some (r, Some t', al')"
          using res p' pp m True k b by (simp add: ht_insert_unfold ht1_def)
        then obtain p_new al2 nodes rv p2 where
          c: "ht_create al1 (sint (prime_index ht + 1)) = Some (p_new, al2)"
          and n: "ht_nodes ht1 = Some nodes"
          and rh: "rehash al2 p_new nodes = Some (rv, p2, al')"
          and t': "t' = ht1 \<or> p2 = Some t'"
          by (auto simp: ht_resize_def ht1_def split: option.splits if_splits)
        have "\<forall>t. p_new = Some t \<longrightarrow> I t"
          using create c by auto
        with insert [OF pp m' k b lf [unfolded ht1_def] c n [unfolded ht1_def]] rh
        have "p2 = Some t' \<longrightarrow> I t'" by blast
        then show ?thesis using t' I1 by auto
      qed
    qed
  qed
next
  case (rehash_Nil al p)
  show ?case by simp
next
  case (rehash_Cons al p n rest)
  show ?case
  proof (intro allI impI)
    fix r p' al' t'
    assume inv: "\<forall>t. p = Some t \<longrightarrow> I t"
      and res: "rehash al p (n # rest) = Some (r, p', al')" and p': "p' = Some t'"
    from res obtain rv p1 al1 where
      ins: "ht_insert al (Some p) (Some (p_key n)) (p_value n) = Some (rv, p1, al1)"
      by (auto simp: rehash_step split: option.splits)
    have I1: "\<forall>t. p1 = Some t \<longrightarrow> I t"
      using rehash_Cons(1) inv ins by auto
    show "I t'"
    proof (cases "rv = E_SUCCESS")
      case True
      then have "rehash al1 p1 rest = Some (r, p', al')"
        using res ins by (simp add: rehash_step)
      with rehash_Cons(2) [OF ins [unfolded True]] I1 p' show ?thesis by blast
    next
      case False
      then show ?thesis using res ins I1 p' by (simp add: rehash_step)
    qed
  qed
qed

section \<open>The hash function meets its specification\<close>

subsection \<open>The loop and the switch compute the specified mixing\<close>

declare murmur_chunks.simps [simp del]



lemma rot_index_15: "n < 32 \<Longrightarrow> (n + 17) mod 32 = (if n < 15 then n + 17 else n - 15)" for n :: nat
  by (simp add: le_mod_geq)

lemma rot_index_13: "n < 32 \<Longrightarrow> (n + 19) mod 32 = (if n < 13 then n + 19 else n - 13)" for n :: nat
  by (simp add: le_mod_geq)

lemma rotl_or_15: "push_bit 15 (w::u32) OR drop_bit (32 - 15) w = word_rotl 15 w"
  by (rule bit_word_eqI) (auto simp: bit_simps rot_index_15 add.commute dest: bit_imp_le_length)

lemma rotl_or_13: "push_bit 13 (w::u32) OR drop_bit (32 - 13) w = word_rotl 13 w"
  by (rule bit_word_eqI) (auto simp: bit_simps rot_index_13 add.commute dest: bit_imp_le_length)

lemma murmur_chunks_step:
  assumes "index \<noteq> 0" "read_u32 data ((chunk_len + index) * 4) = Some k"
  shows "murmur_chunks data chunk_len index hash =
           murmur_chunks data chunk_len (index + 1) (spec_round hash k)"
  using assms
  by (subst murmur_chunks.simps) (simp add: spec_round_def spec_mix_def rotl_or_15 [simplified] rotl_or_13 [simplified] Let_def)

lemma murmur_chunks_done: "murmur_chunks data chunk_len 0 hash = Some hash"
  by (subst murmur_chunks.simps) simp

lemma read_u32_drop:
  assumes "drop (4 * j) data = b0 # b1 # b2 # b3 # rest"
  shows "read_u32 data (int j * 4) = Some (spec_chunk b0 b1 b2 b3)"
proof -
  have len: "4 * j + 4 \<le> length data"
    using arg_cong [OF assms, of length] by simp
  have "data ! (4 * j + i) = (b0 # b1 # b2 # b3 # rest) ! i" if "i < 4" for i
    using assms len that by (metis nth_drop le_add1 le_trans)
  from this [of 0] this [of 1] this [of 2] this [of 3] len
  show ?thesis
    by (simp add: read_u32_def spec_chunk_def nat_mult_distrib mult.commute)
qed


lemma and_3_eq_mod_4: "(k :: int) AND 3 = k mod 4"
proof -
  have "k AND mask 2 = k mod 2 ^ 2"
    by (simp only: take_bit_eq_mod flip: take_bit_eq_mask)
  moreover have "mask 2 = (3 :: int)"
    by (simp add: mask_eq_exp_minus_1)
  ultimately show ?thesis
    by simp
qed

lemma short_list_cases:
  assumes "length xs < 4"
  obtains "xs = []" | b0 where "xs = [b0]" | b0 b1 where "xs = [b0, b1]"
    | b0 b1 b2 where "xs = [b0, b1, b2]"
proof (cases xs)
  case Nil
  then show ?thesis using that by simp
next
  case (Cons b0 xs1)
  show ?thesis
  proof (cases xs1)
    case Nil
    then show ?thesis using Cons that by simp
  next
    case (Cons b1 xs2)
    note c2 = this
    show ?thesis
    proof (cases xs2)
      case Nil
      then show ?thesis using \<open>xs = b0 # xs1\<close> c2 that by simp
    next
      case (Cons b2 xs3)
      then have "xs3 = []"
        using assms \<open>xs = b0 # xs1\<close> c2 by simp
      then show ?thesis using \<open>xs = b0 # xs1\<close> c2 Cons that by simp
    qed
  qed
qed

lemma read_u8_drop:
  assumes "drop j data = rest" "i < length rest"
  shows "read_u8 data (int j + int i) = Some (rest ! i)"
proof -
  have "j + i < length data"
    using assms by auto
  moreover have "data ! (j + i) = rest ! i"
    using assms by (metis nth_drop le_add1 less_imp_le_nat calculation add_lessD1)
  ultimately show ?thesis
    by (simp add: read_u8_def nat_add_distrib)
qed

lemma murmur_tail_spec:
  assumes "drop (4 * j) data = rest" "length rest < 4" "4 * j \<le> length data"
  shows "murmur_tail data (int j * 4) (int (length data)) h = Some (spec_body rest h)"
proof -
  have len: "length data = 4 * j + length rest"
    using assms by auto
  have sel: "int (length data) AND 3 = int (length rest)"
    using assms(2) by (simp add: and_3_eq_mod_4 len zmod_int)
  have rd: "read_u8 data (int j * 4 + int i) = Some (rest ! i)" if "i < length rest" for i
    using read_u8_drop [OF assms(1) that] by (simp add: mult.commute)
  from assms(2) show ?thesis
  proof (cases rest rule: short_list_cases)
    case 1
    then show ?thesis using sel by (simp add: murmur_tail_def)
  next
    case 2
    then show ?thesis using sel rd [of 0]
      by (simp add: murmur_tail_def spec_mix_def rotl_or_15 [simplified])
  next
    case 3
    then show ?thesis using sel rd [of 0] rd [of 1]
      by (simp add: murmur_tail_def spec_mix_def rotl_or_15 [simplified])
  next
    case 4
    then show ?thesis using sel rd [of 0] rd [of 1] rd [of 2]
      by (simp add: murmur_tail_def spec_mix_def rotl_or_15 [simplified])
  qed
qed

lemma murmur_base_spec:
  assumes "drop (4 * j) data = rest" "length rest < 4" "4 * j \<le> length data"
  shows "murmur_chunks data (int (length data div 4)) (int j - int (length data div 4)) h
           \<bind> murmur_tail data (int (length data div 4) * 4) (int (length data))
         = Some (spec_body rest h)"
proof -
  have "length data = 4 * j + length rest"
    using assms by auto
  then have "length data div 4 = j"
    using assms(2) by simp
  then show ?thesis
    using murmur_tail_spec [OF assms, of h] by (simp add: murmur_chunks_done)
qed

lemma murmur_chunks_spec:
  assumes "drop (4 * j) data = rest" "4 * j \<le> length data"
  shows "murmur_chunks data (int (length data div 4)) (int j - int (length data div 4)) h
           \<bind> murmur_tail data (int (length data div 4) * 4) (int (length data))
         = Some (spec_body rest h)"
  using assms
proof (induction rest h arbitrary: j rule: spec_body.induct)
  case (1 b0 b1 b2 b3 rest h)
  have len: "4 * j + 4 \<le> length data"
    using arg_cong [OF "1.prems"(1), of length] by simp
  then have lt: "j < length data div 4"
    by simp
  have rd: "read_u32 data ((int (length data div 4) + (int j - int (length data div 4))) * 4)
              = Some (spec_chunk b0 b1 b2 b3)"
    using read_u32_drop [OF "1.prems"(1)] by simp
  have "drop (4 * Suc j) data = drop 4 (drop (4 * j) data)"
    by (simp add: add.commute)
  then have nxt: "drop (4 * Suc j) data = rest"
    using "1.prems"(1) by simp
  have "murmur_chunks data (int (length data div 4)) (int j - int (length data div 4)) h
          = murmur_chunks data (int (length data div 4)) (int (Suc j) - int (length data div 4))
              (spec_round h (spec_chunk b0 b1 b2 b3))"
    using murmur_chunks_step [OF _ rd, of h] lt by (simp add: algebra_simps)
  then show ?case
    using "1.IH" [OF nxt] len by simp
qed (rule murmur_base_spec; simp)+

lemma sdiv_nonneg: "0 \<le> k \<Longrightarrow> k sdiv 4 = k div 4" for k :: int
  by (simp add: signed_divide_int_def sgn_if)

lemma murmurhash_spec:
  "murmurhash data (int (length data)) seed = Some (spec_hash data seed)"
proof -
  have "murmur_chunks data (int (length data div 4)) (int 0 - int (length data div 4)) seed
           \<bind> murmur_tail data (int (length data div 4) * 4) (int (length data))
         = Some (spec_body data seed)"
    by (rule murmur_chunks_spec) simp_all
  then obtain h1 where
    h1: "murmur_chunks data (int (length data div 4)) (- int (length data div 4)) seed = Some h1"
    and h2: "murmur_tail data (int (length data div 4) * 4) (int (length data)) h1
               = Some (spec_body data seed)"
    by (auto simp: bind_eq_Some_conv)
  have "int (length data) sdiv 4 = int (length data div 4)"
    by (simp add: sdiv_nonneg zdiv_int)
  then show ?thesis
    by (simp add: murmurhash_def h1 h2 spec_hash_def spec_avalanche_def Let_def)
qed

lemma int_of_size_t_small: "n < 2 ^ 31 \<Longrightarrow> int_of_size_t n = int n"
  unfolding int_of_size_t_def
  by (simp add: sint_uint unsigned_of_nat signed_take_bit_int_eq_self take_bit_nat_eq_self)


lemma hash_str_spec:
  assumes "length key < 2 ^ 31"
  shows "hash_str (Some key) = Some (spec_hash_key key)"
  using assms murmurhash_spec [of "key_bytes key" 0]
  by (simp add: hash_str_def strlen_def int_of_size_t_small spec_hash_key_def key_bytes_def)

section \<open>The claims\<close>

subsection \<open>Evaluation on concrete tables\<close>

lemmas eval_simps = ht_insert_unfold malloc_def bucket_index_def link_node_def
  load_factor_float_ratio float_ratio_small ht_delete_def ht_search_def strlen_def
  ht_create_def g_primes_def

lemma hash_a: "hash_str (Some ''a'') = Some 0x3c2569b2"
  by code_simp

lemma hash_b: "hash_str (Some ''b'') = Some 0x95de7e03"
  by code_simp

lemma hash_am: "hash_str (Some ''am'') = Some 0x332f5953"
  by code_simp

text \<open>
  Claim C3. For every byte sequence (of a length that a C \<open>int\<close> holds) and every seed,
  \<open>murmurhash\<close> returns the hash the specification describes: the 4-byte chunks
  mixed with \<open>0xcc9e2d51\<close>, rotate 15, \<open>0x1b873593\<close>, XOR, rotate 13, times 5 plus
  \<open>0xe6546b64\<close>; the 0 to 3 trailing bytes mixed without that last step; the length
  XORed in and the avalanche applied. The table hashes a key with seed 0 over its
  \<open>strlen\<close> bytes.
\<close>

theorem murmurhash_computes_spec_hash:
  assumes "length data < 2 ^ 31" and "length key < 2 ^ 31"
  shows "murmurhash data (int (length data)) seed = Some (spec_hash data seed)
         \<and> hash_str (Some key) = Some (spec_hash (key_bytes key) 0)"
  using assms hash_str_spec [of key] murmurhash_spec [of data seed]
  by (simp add: spec_hash_key_def)

theorem murmurhash_computes_spec_hash_witness:
  "length [1, 2, 3, 4, 5, 6 :: u8] < 2 ^ 31 \<and> length ''abcde'' < 2 ^ 31
   \<and> murmurhash [1, 2, 3, 4, 5, 6] (int (length [1, 2, 3, 4, 5, 6 :: u8])) 7
       = Some (spec_hash [1, 2, 3, 4, 5, 6] 7)
   \<and> hash_str (Some ''abcde'') = Some 0xe89b9af6"
  using murmurhash_computes_spec_hash [of "[1, 2, 3, 4, 5, 6]" "''abcde''" 7]
  by (simp add: key_bytes_def) code_simp

text \<open>
  Claim C2. From a table created at rank 0, \<open>insert("a",1); insert("b",2); insert("a",3)\<close>
  all succeed; then \<open>search("a")\<close> is 3 and \<open>search("b")\<close> is 2; \<open>delete("b")\<close>
  succeeds, after which \<open>search("b")\<close> is absent and a second \<open>delete("b")\<close> reports
  not-found. No allocation fails in this run.
\<close>

theorem concrete_scenario:
  "do { (p_ht, al) \<leftarrow> ht_create [] 0;
        (r1, p_ht, al) \<leftarrow> ht_insert al (Some p_ht) (Some ''a'') (Some (1 :: int));
        (r2, p_ht, al) \<leftarrow> ht_insert al (Some p_ht) (Some ''b'') (Some 2);
        (r3, p_ht, al) \<leftarrow> ht_insert al (Some p_ht) (Some ''a'') (Some 3);
        s1 \<leftarrow> ht_search p_ht (Some ''a'');
        s2 \<leftarrow> ht_search p_ht (Some ''b'');
        (r4, p_ht) \<leftarrow> ht_delete p_ht (Some ''b'');
        s3 \<leftarrow> ht_search p_ht (Some ''b'');
        (r5, p_ht) \<leftarrow> ht_delete p_ht (Some ''b'');
        Some ([r1, r2, r3, r4, r5], [s1, s2, s3]) }
   = Some ([E_SUCCESS, E_SUCCESS, E_SUCCESS, E_SUCCESS, E_NODE_NOT_FOUND],
           [Some 3, Some 2, None])"
  by (simp add: eval_simps hash_a hash_b)

text \<open>
  Claim C4. \<open>ht_delete\<close> with a non-null key removes the first node of the key's bucket
  whose stored key has the deletion key as a prefix (the comparison runs over
  \<open>strlen\<close> of the deletion key only), decrements the size and reports success; it
  reports not-found when no node of the chain has the key as a prefix. \<open>ht_search\<close>
  returns the value of the first node whose stored key equals the key.
\<close>

theorem delete_prefix_search_equal:
  "ht_delete (Some ht) (Some key) =
     (case bucket_index ht key of
        None \<Rightarrow> None
      | Some index \<Rightarrow>
          (case find (\<lambda>n. prefix key (p_key n)) (pp_items ht ! index) of
             None \<Rightarrow> Some (E_NODE_NOT_FOUND, Some ht)
           | Some n \<Rightarrow>
               Some (E_SUCCESS,
                     Some (ht\<lparr>pp_items := (pp_items ht)[index := remove1 n (pp_items ht ! index)],
                              size' := size' ht - 1\<rparr>))))
   \<and> ht_search (Some ht) (Some key) =
     (case bucket_index ht key of
        None \<Rightarrow> None
      | Some index \<Rightarrow>
          (case find (\<lambda>n. p_key n = key) (pp_items ht ! index) of
             None \<Rightarrow> Some None
           | Some n \<Rightarrow> Some (p_value n)))"
  by (simp add: ht_delete_def ht_search_def chain_delete_find chain_search_find
      split: option.splits)

text \<open>
  The keys \<open>"a"\<close> and \<open>"am"\<close> share bucket 42 of a rank 0 table. With only
  \<open>"am"\<close> stored, \<open>search("a")\<close> is absent, yet \<open>delete("a")\<close> succeeds and removes
  the node of \<open>"am"\<close>.
\<close>

theorem delete_prefix_search_equal_witness:
  "ht_insert [] (Some (Some \<lparr>pp_items = replicate 53 [], capacity = 53, size' = 0,
                             prime_index = 0\<rparr>)) (Some ''am'') (Some (7 :: int))
     = Some (E_SUCCESS,
             Some \<lparr>pp_items = (replicate 53 [])[42 := [\<lparr>p_key = ''am'', p_value = Some 7\<rparr>]],
                   capacity = 53, size' = 1, prime_index = 0\<rparr>, [])
   \<and> ht_search (Some \<lparr>pp_items = (replicate 53 [])[42 := [\<lparr>p_key = ''am'', p_value = Some (7 :: int)\<rparr>]],
                     capacity = 53, size' = 1, prime_index = 0\<rparr>) (Some ''a'')
     = Some None
   \<and> ht_delete (Some \<lparr>pp_items = (replicate 53 [])[42 := [\<lparr>p_key = ''am'', p_value = Some (7 :: int)\<rparr>]],
                       capacity = 53, size' = 1, prime_index = 0\<rparr>) (Some ''a'')
     = Some (E_SUCCESS,
             Some \<lparr>pp_items = (replicate 53 [])[42 := []], capacity = 53, size' = 0,
                   prime_index = 0\<rparr>)"
  using delete_prefix_search_equal
    [of "\<lparr>pp_items = (replicate 53 [])[42 := [\<lparr>p_key = ''am'', p_value = Some (7 :: int)\<rparr>]],
          capacity = 53, size' = 1, prime_index = 0\<rparr>" "''a''"]
  by (simp add: eval_simps hash_a hash_am)

text \<open>
  Claim C7. Every successful \<open>ht_delete\<close> leaves the size one lower (in \<open>size_t\<close>
  arithmetic) than it was, and the chain of the key's bucket one node shorter: the
  decrement does not depend on whether the bucket becomes empty.
\<close>

theorem delete_decrements_size:
  assumes "ht_delete p_ht p_key' = Some (E_SUCCESS, p_ht')"
  shows "\<exists>ht ht' key index.
           p_ht = Some ht \<and> p_ht' = Some ht' \<and> p_key' = Some key
           \<and> bucket_index ht key = Some index
           \<and> size' ht' = size' ht - 1
           \<and> Suc (length (pp_items ht' ! index)) = length (pp_items ht ! index)"
proof -
  have len: "Suc (length c') = length c"
    if "chain_delete key c = Some c'" for key and c c' :: "'a node_t list"
    using that by (induction c arbitrary: c') (auto split: if_splits option.splits)
  show ?thesis
    using assms
    by (auto simp: ht_delete_def dest!: len dest: bucket_index_less
        split: option.splits if_splits)
qed

text \<open>
  A bucket with two chained nodes: the delete leaves one node in the bucket and makes
  the size 0.
\<close>

theorem delete_decrements_size_witness:
  "ht_delete (Some \<lparr>pp_items = (replicate 53 [])[42 := [\<lparr>p_key = ''a'', p_value = Some (3 :: int)\<rparr>,
                                                         \<lparr>p_key = ''a'', p_value = Some 1\<rparr>]],
                     capacity = 53, size' = 1, prime_index = 0\<rparr>) (Some ''a'')
     = Some (E_SUCCESS,
             Some \<lparr>pp_items = (replicate 53 [])[42 := [\<lparr>p_key = ''a'', p_value = Some 1\<rparr>]],
                   capacity = 53, size' = 0, prime_index = 0\<rparr>)
   \<and> size' \<lparr>pp_items = (replicate 53 [])[42 := [\<lparr>p_key = ''a'', p_value = Some (1 :: int)\<rparr>]],
             capacity = 53, size' = 0, prime_index = 0\<rparr> = 1 - 1"
proof -
  have d: "ht_delete (Some \<lparr>pp_items = (replicate 53 [])[42 := [\<lparr>p_key = ''a'', p_value = Some (3 :: int)\<rparr>,
                                                         \<lparr>p_key = ''a'', p_value = Some 1\<rparr>]],
                     capacity = 53, size' = 1, prime_index = 0\<rparr>) (Some ''a'')
     = Some (E_SUCCESS,
             Some \<lparr>pp_items = (replicate 53 [])[42 := [\<lparr>p_key = ''a'', p_value = Some 1\<rparr>]],
                   capacity = 53, size' = 0, prime_index = 0\<rparr>)"
    by (simp add: eval_simps hash_a)
  from delete_decrements_size [OF d] d show ?thesis
    by simp
qed

text \<open>
  Claim C8, at the input where the code departs from it: \<open>ht_insert\<close> on a valid
  table with a null key. The node is allocated and \<open>hash_str\<close> then passes the null key
  to \<open>strlen\<close>: the call has no defined result, where \<open>ht_delete\<close> returns
  \<open>E_NULL_PTR\<close>.
\<close>

theorem insert_null_key_undefined:
  "ht_create [] 0
     = Some (Some \<lparr>pp_items = replicate 53 [], capacity = 53, size' = 0, prime_index = 0\<rparr>, [])
   \<and> ht_insert [] (Some (Some \<lparr>pp_items = replicate 53 [], capacity = 53, size' = 0,
                                  prime_index = 0\<rparr>)) None (Some (1 :: int))
     = None
   \<and> ht_delete (Some \<lparr>pp_items = replicate 53 [], capacity = 53, size' = 0, prime_index = 0\<rparr>)
        None
     = Some (E_NULL_PTR,
             Some \<lparr>pp_items = replicate 53 ([] :: int node_t list), capacity = 53, size' = 0,
                   prime_index = 0\<rparr>)"
  by (simp add: eval_simps)

text \<open>The null checks that the operations do make.\<close>

lemma null_table_reported:
  "ht_insert al None k v = Some (E_NULL_PTR, None, al)"
  "ht_insert al (Some None) k v = Some (E_NULL_PTR, None, al)"
  "ht_delete None k = Some (E_NULL_PTR, None)"
  "ht_delete (Some ht) None = Some (E_NULL_PTR, Some ht)"
  "ht_search None k = Some None"
  "ht_destroy None = Some E_NULL_PTR"
  by (simp_all add: ht_delete_def ht_search_def ht_destroy_def)

end
